theory Spec2Isabelle
  imports Main "HOL-Library.Word" "HOL-Library.Sublist"
begin

section \<open>Strings of UTF-16 code units\<close>

text \<open>
  A TypeScript string is a sequence of 16-bit code units; \<open>charCodeAt\<close> reads one of
  them and \<open>String.fromCharCode\<close> builds the one-unit string. \<open>js\<close> writes a string of
  code units from an Isabelle literal.
\<close>

type_synonym char16 = "16 word"
type_synonym jsstring = "char16 list"

definition js :: "string \<Rightarrow> jsstring" where
  "js s = map of_char s"

definition fromCharCode :: "int \<Rightarrow> jsstring" where
  "fromCharCode code = [word_of_int code]"

definition charCodeAt0 :: "char16 \<Rightarrow> int" where
  "charCodeAt0 c = uint c"

text \<open>\<open>value.includes(x)\<close>: \<open>x\<close> occurs in \<open>value\<close> as a contiguous substring.\<close>

fun includes_js :: "jsstring \<Rightarrow> jsstring \<Rightarrow> bool" where
  "includes_js [] x = (x = [])"
| "includes_js (c # cs) x = (prefix x (c # cs) \<or> includes_js cs x)"

section \<open>Tokens and settings\<close>

datatype TokenType = NotSet | Text | LineSeparator | Delimiter | Quote | EndOfFile

record Token =
  Type :: TokenType
  Value :: "jsstring option"

definition Token_NotSet :: Token where
  "Token_NotSet = \<lparr>Type = NotSet, Value = None\<rparr>"

datatype QuotingMode = Minimal | QuoteAll

record ParseSettings =
  FieldDelimiter :: jsstring
  RowDelimiter :: jsstring
  QuotingCharacter :: jsstring
  QuotingMode :: QuotingMode

text \<open>The constructor of \<open>ParseSettings\<close>: comma, double quote, CR LF, Minimal.\<close>

definition new_ParseSettings :: ParseSettings where
  "new_ParseSettings =
     \<lparr>FieldDelimiter = [44], RowDelimiter = [13, 10], QuotingCharacter = [34],
      QuotingMode = Minimal\<rparr>"

datatype error =
    RowDelimiterNull
  | RowDelimiterTooLong
  | UnexpectedEndOfLexerOutput
  | UnexpectedTokenType TokenType
  | RegExpSyntaxError
  | RegExpBeyondModel

section \<open>TextReader\<close>

record TextReader =
  content :: jsstring
  position :: nat

definition new_TextReader :: "jsstring \<Rightarrow> TextReader" where
  "new_TextReader c = \<lparr>content = c, position = 0\<rparr>"

definition read :: "TextReader \<Rightarrow> int \<times> TextReader" where
  "read r =
     (if position r \<ge> length (content r) then (- 1, r)
      else (charCodeAt0 (content r ! position r), r\<lparr>position := position r + 1\<rparr>))"

definition peek :: "TextReader \<Rightarrow> int" where
  "peek r =
     (if position r \<ge> length (content r) then - 1
      else charCodeAt0 (content r ! position r))"

section \<open>Lexer\<close>

definition Lexer_FieldDelimiter :: "ParseSettings \<Rightarrow> Token" where
  "Lexer_FieldDelimiter s = \<lparr>Type = Delimiter, Value = Some (FieldDelimiter s)\<rparr>"

definition Lexer_LineSeparator :: "ParseSettings \<Rightarrow> Token" where
  "Lexer_LineSeparator s = \<lparr>Type = LineSeparator, Value = Some (RowDelimiter s)\<rparr>"

definition Lexer_Quote :: "ParseSettings \<Rightarrow> Token" where
  "Lexer_Quote s = \<lparr>Type = Quote, Value = Some (QuotingCharacter s)\<rparr>"

definition validateSettings :: "ParseSettings \<Rightarrow> error + unit" where
  "validateSettings s =
     (if RowDelimiter s = [] then Inl RowDelimiterNull
      else if length (RowDelimiter s) > 2 then Inl RowDelimiterTooLong
      else Inr ())"

text \<open>
  The classification at the head of the loop body of \<open>scanReader\<close>: the token \<open>special\<close>
  for the code unit just read, and the reader after the second unit of a row delimiter
  has been consumed. An index past the end of a string is \<open>undefined\<close> in the source and
  equal to no string, which \<open>None\<close> stands for.
\<close>

definition special_for :: "ParseSettings \<Rightarrow> int \<Rightarrow> TextReader \<Rightarrow> Token \<times> TextReader" where
  "special_for s current reader =
     (let first = (case RowDelimiter s of [] \<Rightarrow> None | f # _ \<Rightarrow> Some [f]);
          second = (if length (RowDelimiter s) > 1 then Some (RowDelimiter s ! 1) else None)
      in if fromCharCode current = FieldDelimiter s then (Lexer_FieldDelimiter s, reader)
         else if fromCharCode current = QuotingCharacter s then (Lexer_Quote s, reader)
         else if Some (fromCharCode current) = first then
           (case second of
              None \<Rightarrow> (Lexer_LineSeparator s, reader)
            | Some sec \<Rightarrow>
                if peek reader = charCodeAt0 sec then (Lexer_LineSeparator s, snd (read reader))
                else (Token_NotSet, reader))
         else (Token_NotSet, reader))"

definition flush :: "jsstring \<Rightarrow> Token list" where
  "flush buffer = (if length buffer > 0 then [\<lparr>Type = Text, Value = Some buffer\<rparr>] else [])"

definition remaining_input :: "TextReader \<Rightarrow> nat" where
  "remaining_input r = length (content r) - position r"

lemma read_advances:
  "read r = (current, r1) \<Longrightarrow> current \<noteq> - 1 \<Longrightarrow>
     remaining_input r1 < remaining_input r \<and> content r1 = content r \<and> position r1 = Suc (position r)"
  by (auto simp: read_def remaining_input_def split: if_splits)

lemma special_for_reader:
  "special_for s current r1 = (special, r2) \<Longrightarrow> remaining_input r2 \<le> remaining_input r1"
  by (auto simp: special_for_def Let_def read_def remaining_input_def
           split: if_splits option.splits list.splits)

text \<open>
  The \<open>while\<close> loop of \<open>scanReader\<close> with the tokens it yields, in order, and the two
  yields after it.
\<close>

function scanLoop :: "ParseSettings \<Rightarrow> TextReader \<Rightarrow> jsstring \<Rightarrow> Token list" where
  "scanLoop s reader buffer =
     (case read reader of (current, reader1) \<Rightarrow>
        if current = - 1 then flush buffer @ [\<lparr>Type = EndOfFile, Value = None\<rparr>]
        else (case special_for s current reader1 of (special, reader2) \<Rightarrow>
          if Type special \<noteq> NotSet then flush buffer @ special # scanLoop s reader2 []
          else scanLoop s reader2 (buffer @ fromCharCode current)))"
  by pat_completeness auto
termination
  apply (relation "measure (\<lambda>(s, reader, buffer). remaining_input reader)")
    apply simp
   apply (metis (no_types, lifting) read_advances special_for_reader in_measure
      le_less_trans old.prod.case)
  apply (metis (no_types, lifting) read_advances special_for_reader in_measure
      le_less_trans old.prod.case)
  done

declare scanLoop.simps [simp del]

text \<open>
  \<open>scanReader\<close> is a generator: nothing runs before the first pull, which validates the
  settings and fails before any token is yielded. Its value is what the pulls deliver:
  the error of the first pull, or the finite sequence of tokens.
\<close>

definition scanReader :: "ParseSettings \<Rightarrow> TextReader \<Rightarrow> error + Token list" where
  "scanReader s reader =
     (case validateSettings s of
        Inl e \<Rightarrow> Inl e
      | Inr _ \<Rightarrow> Inr (scanLoop s reader []))"

definition scan :: "ParseSettings \<Rightarrow> jsstring \<Rightarrow> error + Token list" where
  "scan s input = scanReader s (new_TextReader input)"

section \<open>Parser\<close>

text \<open>
  The parser holds the suspended generator \<open>tokens\<close> (what its further pulls deliver)
  and the token it read last; \<open>current\<close> is undefined until the first pull.
\<close>

record Parser =
  tokens :: "error + Token list"
  current :: "Token option"

definition initialize :: "TextReader \<Rightarrow> ParseSettings \<Rightarrow> Parser" where
  "initialize reader settings = \<lparr>tokens = scanReader settings reader, current = None\<rparr>"

definition new_Parser :: "jsstring \<Rightarrow> ParseSettings option \<Rightarrow> Parser" where
  "new_Parser csv settings =
     initialize (new_TextReader csv)
       (case settings of None \<Rightarrow> new_ParseSettings | Some s \<Rightarrow> s)"

definition CurrentToken :: "Parser \<Rightarrow> Token" where
  "CurrentToken p = (case current p of None \<Rightarrow> Token_NotSet | Some t \<Rightarrow> t)"

definition CurrentTokenType :: "Parser \<Rightarrow> TokenType" where
  "CurrentTokenType p = (case current p of None \<Rightarrow> NotSet | Some t \<Rightarrow> Type t)"

definition HasMoreRows :: "Parser \<Rightarrow> bool" where
  "HasMoreRows p = (CurrentTokenType p \<noteq> EndOfFile)"

text \<open>
  \<open>moveNext\<close>: a pull that throws passes the error on; an exhausted generator sets the
  current token to EndOfFile and answers false.
\<close>

definition moveNext :: "Parser \<Rightarrow> error + (bool \<times> Parser)" where
  "moveNext p =
     (case tokens p of
        Inl e \<Rightarrow> Inl e
      | Inr [] \<Rightarrow> Inr (False, p\<lparr>current := Some \<lparr>Type = EndOfFile, Value = None\<rparr>\<rparr>)
      | Inr (t # ts) \<Rightarrow> Inr (True, p\<lparr>tokens := Inr ts, current := Some t\<rparr>))"

definition remaining_tokens :: "Parser \<Rightarrow> nat" where
  "remaining_tokens p = (case tokens p of Inl e \<Rightarrow> 0 | Inr ts \<Rightarrow> length ts)"

lemma moveNext_consumes:
  "moveNext p = Inr (True, p1) \<Longrightarrow> remaining_tokens p1 < remaining_tokens p"
  by (auto simp: moveNext_def remaining_tokens_def split: sum.splits list.splits)

text \<open>\<open>this.CurrentToken.Value || ""\<close>\<close>

definition ValueOrEmpty :: "Token \<Rightarrow> jsstring" where
  "ValueOrEmpty t = (case Value t of None \<Rightarrow> [] | Some v \<Rightarrow> v)"

text \<open>The return of a field: \<open>null\<close> when nothing was pushed, else the pieces joined.\<close>

definition joined :: "jsstring list \<Rightarrow> jsstring option" where
  "joined nextValue = (if length nextValue = 0 then None else Some (concat nextValue))"

text \<open>The \<open>while (true)\<close> loop of \<open>ReadNextCsvValue\<close>.\<close>

function ReadValueLoop ::
  "Parser \<Rightarrow> jsstring list \<Rightarrow> bool \<Rightarrow> bool \<Rightarrow> error + (jsstring option \<times> Parser)" where
  "ReadValueLoop p nextValue isQuoted isQuoteModeOn =
     (case moveNext p of
        Inl e \<Rightarrow> Inl e
      | Inr (moved, p1) \<Rightarrow>
          if \<not> moved then Inl UnexpectedEndOfLexerOutput
          else if isQuoteModeOn then
            (if Type (CurrentToken p1) = Quote then ReadValueLoop p1 nextValue isQuoted False
             else ReadValueLoop p1 (nextValue @ [ValueOrEmpty (CurrentToken p1)]) isQuoted True)
          else
            (case CurrentTokenType p1 of
               Delimiter \<Rightarrow> Inr (joined nextValue, p1)
             | LineSeparator \<Rightarrow> Inr (joined nextValue, p1)
             | EndOfFile \<Rightarrow> Inr (joined nextValue, p1)
             | Quote \<Rightarrow>
                 if isQuoted
                 then ReadValueLoop p1 (nextValue @ [ValueOrEmpty (CurrentToken p1)]) True True
                 else ReadValueLoop p1 nextValue True True
             | Text \<Rightarrow>
                 ReadValueLoop p1 (nextValue @ [ValueOrEmpty (CurrentToken p1)]) isQuoted
                   isQuoteModeOn
             | NotSet \<Rightarrow> Inl (UnexpectedTokenType NotSet)))"
  by pat_completeness auto
termination
  by (relation "measure (\<lambda>(p, nextValue, isQuoted, isQuoteModeOn). remaining_tokens p)")
     (auto dest: moveNext_consumes)

declare ReadValueLoop.simps [simp del]

definition ReadNextCsvValue :: "Parser \<Rightarrow> error + (jsstring option \<times> Parser)" where
  "ReadNextCsvValue p =
     (if CurrentTokenType p = EndOfFile then Inr (None, p)
      else ReadValueLoop p [] False False)"

lemma ReadValueLoop_consumes:
  "ReadValueLoop p nextValue isQuoted isQuoteModeOn = Inr (v, p') \<Longrightarrow>
     remaining_tokens p' < remaining_tokens p"
proof (induction p nextValue isQuoted isQuoteModeOn rule: ReadValueLoop.induct)
  case (1 p nextValue isQuoted isQuoteModeOn)
  from "1.prems" obtain p1 where mv: "moveNext p = Inr (True, p1)"
    by (subst (asm) ReadValueLoop.simps) (auto split: sum.splits if_splits)
  then have less: "remaining_tokens p1 < remaining_tokens p"
    by (rule moveNext_consumes)
  have "remaining_tokens p' \<le> remaining_tokens p1"
    using "1.prems" mv "1.IH" [of "(True, p1)" True p1]
    by (subst (asm) ReadValueLoop.simps)
       (auto split: if_splits TokenType.splits dest!: less_imp_le)
  with less show ?case by simp
qed

lemma ReadNextCsvValue_consumes:
  "ReadNextCsvValue p = Inr (v, p') \<Longrightarrow> CurrentTokenType p' = Delimiter \<Longrightarrow>
     remaining_tokens p' < remaining_tokens p"
  by (auto simp: ReadNextCsvValue_def split: if_splits dest: ReadValueLoop_consumes)

text \<open>
  The generator \<open>ReadNextCsvValues\<close>, drained at once by the spread in \<open>ReadNextRow\<close>:
  the \<open>do ... while\<close> loop reads one value and goes on while the current token is a
  Delimiter.
\<close>

function ReadNextCsvValues :: "Parser \<Rightarrow> error + (jsstring option list \<times> Parser)" where
  "ReadNextCsvValues p =
     (case ReadNextCsvValue p of
        Inl e \<Rightarrow> Inl e
      | Inr (nextValue, p1) \<Rightarrow>
          if CurrentTokenType p1 = Delimiter then
            (case ReadNextCsvValues p1 of
               Inl e \<Rightarrow> Inl e
             | Inr (later, p2) \<Rightarrow> Inr (nextValue # later, p2))
          else Inr ([nextValue], p1))"
  by pat_completeness auto
termination
  by (relation "measure remaining_tokens") (auto dest: ReadNextCsvValue_consumes)

declare ReadNextCsvValues.simps [simp del]

definition ReadNextRow :: "Parser \<Rightarrow> error + (jsstring option list option \<times> Parser)" where
  "ReadNextRow p =
     (if \<not> HasMoreRows p then Inr (None, p)
      else
        (case ReadNextCsvValues p of
           Inl e \<Rightarrow> Inl e
         | Inr (rowValues, p1) \<Rightarrow>
             if \<not> HasMoreRows p1 \<and> length rowValues = 1 \<and> rowValues ! 0 = None
             then Inr (None, p1)
             else Inr (Some rowValues, p1)))"

lemma ReadNextCsvValues_consumes:
  "ReadNextCsvValues p = Inr (vs, p') \<Longrightarrow> CurrentTokenType p \<noteq> EndOfFile \<Longrightarrow>
     remaining_tokens p' < remaining_tokens p"
proof (induction p arbitrary: vs p' rule: ReadNextCsvValues.induct)
  case (1 p)
  from "1.prems"(1) obtain v p1 where rv: "ReadNextCsvValue p = Inr (v, p1)"
    by (subst (asm) ReadNextCsvValues.simps) (auto split: sum.splits)
  with "1.prems"(2) have less: "remaining_tokens p1 < remaining_tokens p"
    by (auto simp: ReadNextCsvValue_def dest: ReadValueLoop_consumes)
  show ?case
  proof (cases "CurrentTokenType p1 = Delimiter")
    case True
    with "1.prems"(1) rv obtain later where "ReadNextCsvValues p1 = Inr (later, p')"
      by (subst (asm) ReadNextCsvValues.simps) (auto split: sum.splits)
    with "1.IH" [OF rv refl True] True
    have "remaining_tokens p' < remaining_tokens p1" by simp
    with less show ?thesis by simp
  next
    case False
    with "1.prems"(1) rv have "p' = p1"
      by (subst (asm) ReadNextCsvValues.simps) simp
    with less show ?thesis by simp
  qed
qed

lemma ReadNextRow_consumes:
  "ReadNextRow p = Inr (row, p') \<Longrightarrow> HasMoreRows p \<Longrightarrow>
     remaining_tokens p' < remaining_tokens p"
  by (auto simp: ReadNextRow_def HasMoreRows_def split: sum.splits if_splits
           dest: ReadNextCsvValues_consumes)

text \<open>
  The \<open>while\<close> loop of \<open>ReadToEnd\<close>. The source pushes \<open>nextRowValues\<close> under a cast,
  so an element of \<open>rows\<close> is a row or \<open>null\<close>.
\<close>

function ReadToEndLoop ::
  "Parser \<Rightarrow> jsstring option list option list \<Rightarrow>
     error + (jsstring option list option list \<times> Parser)" where
  "ReadToEndLoop p rows =
     (if HasMoreRows p then
        (case ReadNextRow p of
           Inl e \<Rightarrow> Inl e
         | Inr (nextRowValues, p1) \<Rightarrow>
             if HasMoreRows p1 \<or> nextRowValues \<noteq> None
             then ReadToEndLoop p1 (rows @ [nextRowValues])
             else ReadToEndLoop p1 rows)
      else Inr (rows, p))"
  by pat_completeness auto
termination
  by (relation "measure (\<lambda>(p, rows). remaining_tokens p)")
     (auto dest: ReadNextRow_consumes)

declare ReadToEndLoop.simps [simp del]

definition ReadToEnd :: "Parser \<Rightarrow> error + (jsstring option list option list \<times> Parser)" where
  "ReadToEnd p = ReadToEndLoop p []"

text \<open>
  \<open>Dispose\<close> replaces the generator by an empty one. The static functions call it after
  the result has been computed, so it does not show in what they return.
\<close>

definition Dispose :: "Parser \<Rightarrow> Parser" where
  "Dispose p = p\<lparr>tokens := Inr []\<rparr>"

definition ParseSingleRow ::
  "jsstring \<Rightarrow> ParseSettings option \<Rightarrow> error + jsstring option list" where
  "ParseSingleRow singleRow settings =
     (case ReadNextRow (new_Parser singleRow settings) of
        Inl e \<Rightarrow> Inl e
      | Inr (row, parser) \<Rightarrow>
          Inr (case row of None \<Rightarrow> [] | Some firstRow \<Rightarrow> firstRow))"

definition Parse ::
  "jsstring \<Rightarrow> ParseSettings option \<Rightarrow> error + jsstring option list option list" where
  "Parse csv settings =
     (case ReadToEnd (new_Parser csv settings) of
        Inl e \<Rightarrow> Inl e
      | Inr (result, parser) \<Rightarrow> Inr result)"

section \<open>Writer\<close>

text \<open>
  \<open>value.replace(new RegExp(q, 'g'), q + q)\<close>, the call both quoting modes make with
  the quoting character \<open>q\<close>. The pattern is handed to the regular-expression compiler
  as it is, so its outcome depends on what \<open>q\<close> means as a pattern (no \<open>u\<close> flag, web
  grammar):
  \<^item> the empty pattern matches the empty string everywhere and the replacement is
    empty: the value comes back unchanged;
  \<^item> backslash, \<open>*\<close>, \<open>+\<close>, \<open>?\<close>, \<open>(\<close>, \<open>)\<close> and \<open>[\<close> do not compile: SyntaxError;
  \<^item> \<open>.\<close> matches every code unit but the four line terminators;
  \<^item> \<open>^\<close> matches once, empty, at the start;
  \<^item> \<open>$\<close> matches once, empty, at the end, and the replacement \<open>$$\<close> stands for one
    dollar sign;
  \<^item> \<open>|\<close> matches the empty string before every code unit and at the end;
  \<^item> every other code unit matches itself.
  A pattern of two or more code units is a regular expression in general; its result is
  outside this development and is the value \<open>RegExpBeyondModel\<close>.
\<close>

text \<open>\<open>doubled q v\<close>: every \<open>q\<close> in \<open>v\<close> written twice, the rest as it is.\<close>

definition doubled :: "char16 \<Rightarrow> jsstring \<Rightarrow> jsstring" where
  "doubled q v = concat (map (\<lambda>x. if x = q then [q, q] else [x]) v)"

definition LineTerminator :: "char16 \<Rightarrow> bool" where
  "LineTerminator c = (c = 10 \<or> c = 13 \<or> c = 8232 \<or> c = 8233)"

definition replace_RegExp_g :: "jsstring \<Rightarrow> jsstring \<Rightarrow> error + jsstring" where
  "replace_RegExp_g q v =
     (case q of
        [] \<Rightarrow> Inr v
      | [c] \<Rightarrow>
          if c = 92 \<or> c = 42 \<or> c = 43 \<or> c = 63 \<or> c = 40 \<or> c = 41 \<or> c = 91
          then Inl RegExpSyntaxError
          else if c = 46 then Inr (concat (map (\<lambda>x. if LineTerminator x then [x] else [46, 46]) v))
          else if c = 94 then Inr ([94, 94] @ v)
          else if c = 36 then Inr (v @ [36])
          else if c = 124 then Inr ([124, 124] @ concat (map (\<lambda>x. [x, 124, 124]) v))
          else Inr (doubled c v)
      | _ \<Rightarrow> Inl RegExpBeyondModel)"

definition WrapValueForCsvUsingMinimalMode ::
  "jsstring option \<Rightarrow> ParseSettings \<Rightarrow> error + jsstring option" where
  "WrapValueForCsvUsingMinimalMode v settings =
     (case v of
        None \<Rightarrow> Inr None
      | Some val \<Rightarrow>
          if length val = 0 then Inr (Some val)
          else
            (let containsQuote = includes_js val (QuotingCharacter settings)
             in if containsQuote \<or> includes_js val (FieldDelimiter settings)
                   \<or> includes_js val (RowDelimiter settings)
                then
                  (case (if containsQuote then replace_RegExp_g (QuotingCharacter settings) val
                         else Inr val) of
                     Inl e \<Rightarrow> Inl e
                   | Inr inner \<Rightarrow>
                       Inr (Some (QuotingCharacter settings @ inner @ QuotingCharacter settings)))
                else Inr (Some val)))"

definition WrapValueForCsvUsingQuoteAllMode ::
  "jsstring option \<Rightarrow> ParseSettings \<Rightarrow> error + jsstring option" where
  "WrapValueForCsvUsingQuoteAllMode v settings =
     (case (case v of
              None \<Rightarrow> Inr []
            | Some val \<Rightarrow>
                if val \<noteq> [] then replace_RegExp_g (QuotingCharacter settings) val else Inr []) of
        Inl e \<Rightarrow> Inl e
      | Inr replaced \<Rightarrow>
          Inr (Some (QuotingCharacter settings @ replaced @ QuotingCharacter settings)))"

definition WrapValueForCsv :: "jsstring option \<Rightarrow> ParseSettings \<Rightarrow> error + jsstring option" where
  "WrapValueForCsv v settings =
     (case QuotingMode settings of
        Minimal \<Rightarrow> WrapValueForCsvUsingMinimalMode v settings
      | QuoteAll \<Rightarrow> WrapValueForCsvUsingQuoteAllMode v settings)"

text \<open>
  The sink \<open>TextWriter\<close> belongs to the caller; what is known of it is the text handed to
  \<open>write\<close> (here \<open>TextWriter_write\<close>), call after call.
\<close>

record TextWriter =
  written :: jsstring

definition TextWriter_write :: "TextWriter \<Rightarrow> jsstring \<Rightarrow> TextWriter" where
  "TextWriter_write w line = w\<lparr>written := written w @ line\<rparr>"

record Writer =
  Settings :: ParseSettings
  Writer :: TextWriter
  LineAlreadyStarted :: bool

definition new_Writer :: "TextWriter \<Rightarrow> ParseSettings option \<Rightarrow> Writer" where
  "new_Writer writer settings =
     \<lparr>Settings = (case settings of None \<Rightarrow> new_ParseSettings | Some s \<Rightarrow> s),
      Writer = writer, LineAlreadyStarted = False\<rparr>"

definition WriteRawLine :: "Writer \<Rightarrow> jsstring \<Rightarrow> Writer" where
  "WriteRawLine w line =
     w\<lparr>Writer := TextWriter_write (TextWriter_write (Writer w) line) (RowDelimiter (Settings w)),
       LineAlreadyStarted := False\<rparr>"

definition WriteRawValue :: "Writer \<Rightarrow> jsstring option \<Rightarrow> Writer" where
  "WriteRawValue w v =
     (let sink1 = (if LineAlreadyStarted w then TextWriter_write (Writer w) (FieldDelimiter (Settings w))
                   else Writer w)
      in w\<lparr>Writer := TextWriter_write sink1 (case v of None \<Rightarrow> [] | Some val \<Rightarrow> val),
           LineAlreadyStarted := True\<rparr>)"

definition Write :: "Writer \<Rightarrow> jsstring option \<Rightarrow> error + Writer" where
  "Write w v =
     (case WrapValueForCsv v (Settings w) of
        Inl e \<Rightarrow> Inl e
      | Inr wrapped \<Rightarrow> Inr (WriteRawValue w wrapped))"

fun WriteEach :: "Writer \<Rightarrow> jsstring list \<Rightarrow> error + Writer" where
  "WriteEach w [] = Inr w"
| "WriteEach w (v # vs) =
     (case Write w (Some v) of Inl e \<Rightarrow> Inl e | Inr w1 \<Rightarrow> WriteEach w1 vs)"

definition WriteLine :: "Writer \<Rightarrow> jsstring list \<Rightarrow> error + Writer" where
  "WriteLine w vals =
     (case WriteEach w vals of
        Inl e \<Rightarrow> Inl e
      | Inr w1 \<Rightarrow> Inr (WriteRawLine w1 []))"

section \<open>The token sequence as a function of the remaining input\<close>

text \<open>
  \<open>tokenize s buffer input\<close> lists the tokens the loop of \<open>scanReader\<close> yields from a
  reader whose unread input is \<open>input\<close>; \<open>scanLoop_tokenize\<close> proves it equal to the loop.
\<close>

fun tokenize :: "ParseSettings \<Rightarrow> jsstring \<Rightarrow> jsstring \<Rightarrow> Token list" where
  "tokenize s buffer [] = flush buffer @ [\<lparr>Type = EndOfFile, Value = None\<rparr>]"
| "tokenize s buffer (c # rest) =
     (if [c] = FieldDelimiter s then flush buffer @ Lexer_FieldDelimiter s # tokenize s [] rest
      else if [c] = QuotingCharacter s then flush buffer @ Lexer_Quote s # tokenize s [] rest
      else if take 1 (RowDelimiter s) = [c] then
        (if length (RowDelimiter s) \<le> 1
         then flush buffer @ Lexer_LineSeparator s # tokenize s [] rest
         else
           (case rest of
              [] \<Rightarrow> tokenize s (buffer @ [c]) rest
            | d # rest' \<Rightarrow>
                if d = RowDelimiter s ! 1
                then flush buffer @ Lexer_LineSeparator s # tokenize s [] rest'
                else tokenize s (buffer @ [c]) rest))
      else tokenize s (buffer @ [c]) rest)"

lemma read_at_end:
  "length (content r) \<le> position r \<Longrightarrow> read r = (- 1, r)"
  by (simp add: read_def)

lemma read_inside:
  "position r < length (content r) \<Longrightarrow>
     read r = (uint (content r ! position r), r\<lparr>position := Suc (position r)\<rparr>)"
  by (simp add: read_def charCodeAt0_def)

lemma uint_not_minus_one: "uint (c :: char16) \<noteq> - 1"
  using uint_ge_0 [of c] by linarith

lemma drop_as_Cons:
  "position r < length (content r) \<Longrightarrow>
     drop (position r) (content r) = content r ! position r # drop (Suc (position r)) (content r)"
  by (simp add: Cons_nth_drop_Suc)

lemma peek_eq:
  "(peek r = charCodeAt0 d) =
     (position r < length (content r) \<and> content r ! position r = d)"
  using uint_not_minus_one [of d] by (auto simp: peek_def charCodeAt0_def word_uint_eq_iff)

lemma first_eq:
  "(Some [c] = (case rd of [] \<Rightarrow> None | f # _ \<Rightarrow> Some [f])) = (take 1 rd = [c])"
  by (cases rd) auto

lemma special_for_list:
  "special_for s (uint c) r1 =
     (if [c] = FieldDelimiter s then (Lexer_FieldDelimiter s, r1)
      else if [c] = QuotingCharacter s then (Lexer_Quote s, r1)
      else if take 1 (RowDelimiter s) = [c] then
        (if length (RowDelimiter s) \<le> 1 then (Lexer_LineSeparator s, r1)
         else
           (case drop (position r1) (content r1) of
              [] \<Rightarrow> (Token_NotSet, r1)
            | d # rest' \<Rightarrow>
                if d = RowDelimiter s ! 1
                then (Lexer_LineSeparator s, r1\<lparr>position := Suc (position r1)\<rparr>)
                else (Token_NotSet, r1)))
      else (Token_NotSet, r1))"
proof -
  have pk: "\<And>d. (peek r1 = charCodeAt0 d) =
      (case drop (position r1) (content r1) of [] \<Rightarrow> False | e # _ \<Rightarrow> e = d)"
  proof -
    fix d
    show "(peek r1 = charCodeAt0 d) =
      (case drop (position r1) (content r1) of [] \<Rightarrow> False | e # _ \<Rightarrow> e = d)"
    proof (cases "position r1 < length (content r1)")
      case True
      then show ?thesis by (simp add: peek_eq drop_as_Cons)
    next
      case False
      then show ?thesis by (simp add: peek_eq)
    qed
  qed
  have rd: "position r1 < length (content r1) \<Longrightarrow>
      snd (read r1) = r1\<lparr>position := Suc (position r1)\<rparr>"
    by (simp add: read_inside)
  show ?thesis
  proof (cases "length (RowDelimiter s) \<le> 1")
    case True
    then show ?thesis
      by (simp add: special_for_def Let_def fromCharCode_def first_eq)
  next
    case False
    show ?thesis
    proof (cases "drop (position r1) (content r1)")
      case Nil
      with False show ?thesis
        by (simp add: special_for_def Let_def fromCharCode_def first_eq pk)
    next
      case (Cons e rest')
      then have "position r1 < length (content r1)" by (cases "position r1 < length (content r1)") auto
      with False Cons show ?thesis
        by (simp add: special_for_def Let_def fromCharCode_def first_eq pk rd)
    qed
  qed
qed

lemma drop_Suc_of_Cons: "drop n xs = d # rest \<Longrightarrow> drop (Suc n) xs = rest"
  by (metis drop_Suc tl_drop list.sel(3))

lemma Type_specials [simp]:
  "Type (Lexer_FieldDelimiter s) = Delimiter" "Type (Lexer_Quote s) = Quote"
  "Type (Lexer_LineSeparator s) = LineSeparator" "Type Token_NotSet = NotSet"
  by (simp_all add: Lexer_FieldDelimiter_def Lexer_Quote_def Lexer_LineSeparator_def
      Token_NotSet_def)

lemma scanLoop_tokenize:
  "scanLoop s r buffer = tokenize s buffer (drop (position r) (content r))"
proof (induction "remaining_input r" arbitrary: r buffer rule: less_induct)
  case less
  show ?case
  proof (cases "position r < length (content r)")
    case False
    then show ?thesis
      by (subst scanLoop.simps) (simp add: read_at_end)
  next
    case True
    define c where "c = content r ! position r"
    define r1 where "r1 = r\<lparr>position := Suc (position r)\<rparr>"
    define r2 where "r2 = r1\<lparr>position := Suc (position r1)\<rparr>"
    define rest where "rest = drop (position r1) (content r1)"
    have rd: "read r = (uint c, r1)"
      using True by (simp add: read_inside c_def r1_def)
    have d0: "drop (position r) (content r) = c # rest"
      using True by (simp add: drop_as_Cons c_def r1_def rest_def)
    have ih1: "scanLoop s r1 b = tokenize s b rest" for b
      using less [of r1 b] True by (simp add: remaining_input_def r1_def rest_def)
    have ih2: "scanLoop s r2 b = tokenize s b (drop (position r2) (content r2))" for b
      using less [of r2 b] True by (simp add: remaining_input_def r1_def r2_def)
    have special: "scanLoop s r buffer = flush buffer @ tok # scanLoop s r' []"
      if "special_for s (uint c) r1 = (tok, r')" "Type tok \<noteq> NotSet" for tok r'
      using that by (subst scanLoop.simps) (simp add: rd uint_not_minus_one)
    have ordinary: "scanLoop s r buffer = scanLoop s r1 (buffer @ [c])"
      if "special_for s (uint c) r1 = (Token_NotSet, r1)"
      using that by (subst scanLoop.simps) (simp add: rd uint_not_minus_one fromCharCode_def)
    consider
        (delimiter) "[c] = FieldDelimiter s"
      | (quote) "[c] \<noteq> FieldDelimiter s" "[c] = QuotingCharacter s"
      | (row1) "[c] \<noteq> FieldDelimiter s" "[c] \<noteq> QuotingCharacter s"
          "take 1 (RowDelimiter s) = [c]" "length (RowDelimiter s) \<le> 1"
      | (row2) d rest' where "[c] \<noteq> FieldDelimiter s" "[c] \<noteq> QuotingCharacter s"
          "take 1 (RowDelimiter s) = [c]" "\<not> length (RowDelimiter s) \<le> 1"
          "rest = d # rest'" "d = RowDelimiter s ! 1"
      | (lone) "[c] \<noteq> FieldDelimiter s" "[c] \<noteq> QuotingCharacter s"
          "take 1 (RowDelimiter s) = [c]" "\<not> length (RowDelimiter s) \<le> 1"
          "rest = [] \<or> (\<exists>d rest'. rest = d # rest' \<and> d \<noteq> RowDelimiter s ! 1)"
      | (other) "[c] \<noteq> FieldDelimiter s" "[c] \<noteq> QuotingCharacter s"
          "take 1 (RowDelimiter s) \<noteq> [c]"
      by (cases rest) blast+
    then show ?thesis
    proof cases
      case delimiter
      then have "special_for s (uint c) r1 = (Lexer_FieldDelimiter s, r1)"
        by (simp add: special_for_list)
      from special [OF this] delimiter show ?thesis
        by (simp add: d0 ih1)
    next
      case quote
      then have "special_for s (uint c) r1 = (Lexer_Quote s, r1)"
        by (simp add: special_for_list)
      from special [OF this] quote show ?thesis
        by (simp add: d0 ih1)
    next
      case row1
      then have "special_for s (uint c) r1 = (Lexer_LineSeparator s, r1)"
        by (simp add: special_for_list)
      from special [OF this] row1 show ?thesis
        by (simp add: d0 ih1)
    next
      case row2
      then have "special_for s (uint c) r1 = (Lexer_LineSeparator s, r2)"
        by (simp add: special_for_list rest_def [symmetric] r2_def)
      moreover have "drop (position r2) (content r2) = rest'"
        using row2(5) by (simp add: r2_def rest_def drop_Suc_of_Cons)
      ultimately show ?thesis
        using special [of "Lexer_LineSeparator s" r2] row2
        by (simp add: d0 ih2)
    next
      case lone
      then have "special_for s (uint c) r1 = (Token_NotSet, r1)"
        by (auto simp: special_for_list rest_def [symmetric])
      from ordinary [OF this] lone show ?thesis
        by (auto simp: d0 ih1)
    next
      case other
      then have "special_for s (uint c) r1 = (Token_NotSet, r1)"
        by (simp add: special_for_list)
      from ordinary [OF this] other show ?thesis
        by (simp add: d0 ih1)
    qed
  qed
qed

section \<open>The field loop on an explicit token sequence\<close>

lemma moveNext_Cons:
  "moveNext \<lparr>tokens = Inr (t # ts), current = c\<rparr>
     = Inr (True, \<lparr>tokens = Inr ts, current = Some t\<rparr>)"
  by (simp add: moveNext_def)

lemma moveNext_Nil:
  "moveNext \<lparr>tokens = Inr [], current = c\<rparr>
     = Inr (False, \<lparr>tokens = Inr [], current = Some \<lparr>Type = EndOfFile, Value = None\<rparr>\<rparr>)"
  by (simp add: moveNext_def)

lemma ReadValueLoop_Nil:
  "ReadValueLoop \<lparr>tokens = Inr [], current = c\<rparr> nv q qm = Inl UnexpectedEndOfLexerOutput"
  by (subst ReadValueLoop.simps) (simp add: moveNext_Nil)

lemma ReadValueLoop_Cons:
  "ReadValueLoop \<lparr>tokens = Inr (t # ts), current = c\<rparr> nv q qm =
     (if qm then
        (if Type t = Quote then ReadValueLoop \<lparr>tokens = Inr ts, current = Some t\<rparr> nv q False
         else ReadValueLoop \<lparr>tokens = Inr ts, current = Some t\<rparr> (nv @ [ValueOrEmpty t]) q True)
      else
        (case Type t of
           Delimiter \<Rightarrow> Inr (joined nv, \<lparr>tokens = Inr ts, current = Some t\<rparr>)
         | LineSeparator \<Rightarrow> Inr (joined nv, \<lparr>tokens = Inr ts, current = Some t\<rparr>)
         | EndOfFile \<Rightarrow> Inr (joined nv, \<lparr>tokens = Inr ts, current = Some t\<rparr>)
         | Quote \<Rightarrow>
             if q
             then ReadValueLoop \<lparr>tokens = Inr ts, current = Some t\<rparr> (nv @ [ValueOrEmpty t])
                    True True
             else ReadValueLoop \<lparr>tokens = Inr ts, current = Some t\<rparr> nv True True
         | Text \<Rightarrow>
             ReadValueLoop \<lparr>tokens = Inr ts, current = Some t\<rparr> (nv @ [ValueOrEmpty t]) q False
         | NotSet \<Rightarrow> Inl (UnexpectedTokenType NotSet)))"
  by (subst ReadValueLoop.simps)
     (simp add: moveNext_Cons CurrentToken_def CurrentTokenType_def split: TokenType.splits)

lemmas lexer_eval = scan_def scanReader_def validateSettings_def new_ParseSettings_def
  new_TextReader_def scanLoop_tokenize flush_def Lexer_FieldDelimiter_def Lexer_Quote_def
  Lexer_LineSeparator_def js_def

lemmas parser_eval = new_Parser_def initialize_def HasMoreRows_def CurrentTokenType_def
  ReadNextRow_def ReadNextCsvValues.simps ReadNextCsvValue_def ReadValueLoop_Cons
  ReadValueLoop_Nil joined_def ValueOrEmpty_def ReadToEndLoop.simps ReadToEnd_def Parse_def
  ParseSingleRow_def

lemmas writer_eval = WriteLine_def Write_def WrapValueForCsv_def
  WrapValueForCsvUsingQuoteAllMode_def WrapValueForCsvUsingMinimalMode_def
  replace_RegExp_g_def doubled_def WriteRawValue_def WriteRawLine_def TextWriter_write_def
  new_Writer_def LineTerminator_def Let_def

section \<open>Properties of the token sequence\<close>

lemma tokenize_Cons_cases:
  obtains (special) tok rest' where "Type tok \<noteq> Text" "length rest' \<le> length rest"
      "tokenize s buffer (c # rest) = flush buffer @ tok # tokenize s [] rest'"
  | (ordinary) "[c] \<noteq> FieldDelimiter s" "[c] \<noteq> QuotingCharacter s"
      "tokenize s buffer (c # rest) = tokenize s (buffer @ [c]) rest"
proof (cases "[c] = FieldDelimiter s")
  case True
  then have "tokenize s buffer (c # rest)
      = flush buffer @ Lexer_FieldDelimiter s # tokenize s [] rest" by simp
  then show ?thesis using special [of "Lexer_FieldDelimiter s" rest] by simp
next
  case nd: False
  show ?thesis
  proof (cases "[c] = QuotingCharacter s")
    case True
    with nd have "tokenize s buffer (c # rest)
        = flush buffer @ Lexer_Quote s # tokenize s [] rest" by simp
    then show ?thesis using special [of "Lexer_Quote s" rest] by simp
  next
    case nq: False
    show ?thesis
    proof (cases "take 1 (RowDelimiter s) = [c]")
      case False
      with nd nq have "tokenize s buffer (c # rest) = tokenize s (buffer @ [c]) rest" by simp
      with nd nq show ?thesis by (rule ordinary)
    next
      case first: True
      show ?thesis
      proof (cases "length (RowDelimiter s) \<le> 1")
        case True
        with nd nq first have "tokenize s buffer (c # rest)
            = flush buffer @ Lexer_LineSeparator s # tokenize s [] rest" by simp
        then show ?thesis using special [of "Lexer_LineSeparator s" rest] by simp
      next
        case long: False
        show ?thesis
        proof (cases rest)
          case Nil
          with nd nq first long
          have "tokenize s buffer (c # rest) = tokenize s (buffer @ [c]) rest" by simp
          with nd nq show ?thesis by (rule ordinary)
        next
          case (Cons d rest')
          show ?thesis
          proof (cases "d = RowDelimiter s ! 1")
            case True
            with nd nq first long Cons have "tokenize s buffer (c # rest)
                = flush buffer @ Lexer_LineSeparator s # tokenize s [] rest'" by simp
            then show ?thesis using special [of "Lexer_LineSeparator s" rest'] Cons by simp
          next
            case False
            with nd nq first long Cons
            have "tokenize s buffer (c # rest) = tokenize s (buffer @ [c]) rest" by simp
            with nd nq show ?thesis by (rule ordinary)
          qed
        qed
      qed
    qed
  qed
qed

lemma tokenize_last:
  "tokenize s buffer input \<noteq> []
   \<and> last (tokenize s buffer input) = \<lparr>Type = EndOfFile, Value = None\<rparr>"
proof (induction "length input" arbitrary: input buffer rule: less_induct)
  case less
  show ?case
  proof (cases input)
    case Nil
    then show ?thesis by simp
  next
    case (Cons c rest)
    show ?thesis
    proof (cases rule: tokenize_Cons_cases [of rest s buffer c])
      case (special tok rest')
      with less [of rest' "[]"] Cons show ?thesis by simp
    next
      case ordinary
      with less [of rest "buffer @ [c]"] Cons show ?thesis by simp
    qed
  qed
qed

lemma scan_ends_with_EndOfFile:
  "validateSettings s = Inr () \<Longrightarrow>
     \<exists>ts. scan s input = Inr (ts @ [\<lparr>Type = EndOfFile, Value = None\<rparr>])"
  using tokenize_last [of s "[]" input] append_butlast_last_id [of "tokenize s [] input"]
  by (simp add: scan_def scanReader_def scanLoop_tokenize new_TextReader_def) metis

lemma tokenize_Text_values:
  "\<forall>c\<in>set buffer. [c] \<noteq> FieldDelimiter s \<and> [c] \<noteq> QuotingCharacter s \<Longrightarrow>
   t \<in> set (tokenize s buffer input) \<Longrightarrow> Type t = Text \<Longrightarrow>
     \<exists>v. Value t = Some v \<and> v \<noteq> []
       \<and> (\<forall>c\<in>set v. [c] \<noteq> FieldDelimiter s \<and> [c] \<noteq> QuotingCharacter s)"
proof (induction "length input" arbitrary: input buffer rule: less_induct)
  case less
  have fl: "t \<in> set (flush buffer) \<Longrightarrow> ?case"
    using less.prems(1) by (auto simp: flush_def split: if_splits)
  show ?case
  proof (cases input)
    case Nil
    with less.prems(2,3) fl show ?thesis by auto
  next
    case (Cons c rest)
    show ?thesis
    proof (cases rule: tokenize_Cons_cases [of rest s buffer c])
      case (special tok rest')
      with less.prems(2,3) Cons
      consider "t \<in> set (flush buffer)" | "t \<in> set (tokenize s [] rest')" by auto
      then show ?thesis
      proof cases
        case 1
        then show ?thesis by (rule fl)
      next
        case 2
        with less.hyps [of rest' "[]"] special(2) Cons less.prems(3) show ?thesis by simp
      qed
    next
      case ordinary
      with less.prems Cons less.hyps [of rest "buffer @ [c]"] show ?thesis by simp
    qed
  qed
qed

section \<open>Scanning and reading under the default settings\<close>

lemma doubled_simps [simp]:
  "doubled q [] = []"
  "doubled q (x # xs) = (if x = q then [q, q] else [x]) @ doubled q xs"
  by (simp_all add: doubled_def)

lemma doubled_without: "q \<notin> set v \<Longrightarrow> doubled q v = v"
  by (induction v) auto

lemma includes_js_single: "includes_js v [q] = (q \<in> set v)"
  by (induction v) auto

lemma tokenize_default_comma:
  "tokenize new_ParseSettings buf (44 # rest)
     = flush buf @ \<lparr>Type = Delimiter, Value = Some [44]\<rparr> # tokenize new_ParseSettings [] rest"
  by (simp add: new_ParseSettings_def Lexer_FieldDelimiter_def)

lemma tokenize_default_quote:
  "tokenize new_ParseSettings buf (34 # rest)
     = flush buf @ \<lparr>Type = Quote, Value = Some [34]\<rparr> # tokenize new_ParseSettings [] rest"
  by (simp add: new_ParseSettings_def Lexer_Quote_def)

lemma tokenize_default_crlf:
  "tokenize new_ParseSettings buf (13 # 10 # rest)
     = flush buf @ \<lparr>Type = LineSeparator, Value = Some [13, 10]\<rparr> # tokenize new_ParseSettings [] rest"
  by (simp add: new_ParseSettings_def Lexer_LineSeparator_def)

lemma tokenize_default_cr:
  "rest = [] \<or> hd rest \<noteq> 10 \<Longrightarrow>
     tokenize new_ParseSettings buf (13 # rest) = tokenize new_ParseSettings (buf @ [13]) rest"
  by (cases rest) (simp_all add: new_ParseSettings_def)

lemma tokenize_default_other:
  "c \<noteq> 44 \<Longrightarrow> c \<noteq> 34 \<Longrightarrow> c \<noteq> 13 \<Longrightarrow>
     tokenize new_ParseSettings buf (c # rest) = tokenize new_ParseSettings (buf @ [c]) rest"
  by (simp add: new_ParseSettings_def)

lemma ReadValueLoop_flush_quoted:
  "ReadValueLoop \<lparr>tokens = Inr (flush buf @ tk # ts), current = c\<rparr> nv q True
     = ReadValueLoop \<lparr>tokens = Inr (tk # ts), current = c'\<rparr>
         (nv @ (if buf = [] then [] else [buf])) q True"
  by (simp add: flush_def ReadValueLoop_Cons ValueOrEmpty_def)

lemma tokenize_plain:
  "34 \<notin> set t \<Longrightarrow> 44 \<notin> set t \<Longrightarrow> \<not> includes_js t [13, 10] \<Longrightarrow>
     tokenize new_ParseSettings buf t = flush (buf @ t) @ [\<lparr>Type = EndOfFile, Value = None\<rparr>]"
proof (induction t arbitrary: buf)
  case Nil
  show ?case by simp
next
  case (Cons c t)
  have rest: "34 \<notin> set t" "44 \<notin> set t" "\<not> includes_js t [13, 10]"
    using Cons.prems by auto
  have "tokenize new_ParseSettings buf (c # t) = tokenize new_ParseSettings (buf @ [c]) t"
  proof (cases "c = 13")
    case True
    with Cons.prems(3) have "t = [] \<or> hd t \<noteq> 10" by (cases t) auto
    then have "tokenize new_ParseSettings buf (13 # t) = tokenize new_ParseSettings (buf @ [13]) t"
      by (rule tokenize_default_cr)
    with True show ?thesis by (simp del: tokenize.simps)
  next
    case False
    with Cons.prems show ?thesis by (simp add: tokenize_default_other del: tokenize.simps)
  qed
  with Cons.IH [OF rest, of "buf @ [c]"] show ?case by (simp del: tokenize.simps)
qed

lemma doubled_ends_no_lf:
  "t = [] \<or> hd t \<noteq> 10 \<Longrightarrow> doubled 34 t @ [34] = [] \<or> hd (doubled 34 t @ [34]) \<noteq> (10::char16)"
  by (cases t) auto

lemma quoted_body:
  "\<exists>pieces.
     ReadValueLoop \<lparr>tokens = Inr (tokenize new_ParseSettings buf (doubled 34 t @ [34])), current = c\<rparr>
       nv True True
       = Inr (joined (nv @ pieces),
              \<lparr>tokens = Inr [], current = Some \<lparr>Type = EndOfFile, Value = None\<rparr>\<rparr>)
     \<and> concat pieces = buf @ t \<and> (buf @ t \<noteq> [] \<longrightarrow> pieces \<noteq> [])"
proof (induction "length t" arbitrary: t buf nv c rule: less_induct)
  case less
  let ?eof = "\<lparr>Type = EndOfFile, Value = None\<rparr>"
  let ?fin = "\<lparr>tokens = Inr [], current = Some ?eof\<rparr>"
  let ?fp = "if buf = [] then [] else [buf]"
  show ?case
  proof (cases t)
    case Nil
    have "ReadValueLoop \<lparr>tokens = Inr (tokenize new_ParseSettings buf (doubled 34 t @ [34])), current = c\<rparr>
        nv True True = Inr (joined (nv @ ?fp), ?fin)"
      unfolding Nil doubled_simps append_Nil tokenize_default_quote
        ReadValueLoop_flush_quoted [where c' = c]
      by (simp add: ReadValueLoop_Cons flush_def)
    moreover have "concat ?fp = buf @ t" "buf @ t \<noteq> [] \<longrightarrow> ?fp \<noteq> []"
      using Nil by simp_all
    ultimately show ?thesis by blast
  next
    case (Cons x t')
    have special: ?thesis
      if step: "ReadValueLoop
            \<lparr>tokens = Inr (tokenize new_ParseSettings buf (doubled 34 t @ [34])), current = c\<rparr> nv True True
          = ReadValueLoop \<lparr>tokens = Inr (tokenize new_ParseSettings [] (doubled 34 t2 @ [34])), current = c2\<rparr>
              (nv @ ?fp @ [lit]) True True"
        and len: "length t2 < length t" and split: "t = lit @ t2" and ne: "lit \<noteq> []"
      for t2 c2 lit
    proof -
      from less [OF len, of "[]" c2 "nv @ ?fp @ [lit]"] obtain pieces where
        p: "ReadValueLoop \<lparr>tokens = Inr (tokenize new_ParseSettings [] (doubled 34 t2 @ [34])), current = c2\<rparr>
              (nv @ ?fp @ [lit]) True True = Inr (joined ((nv @ ?fp @ [lit]) @ pieces), ?fin)"
          "concat pieces = [] @ t2"
        by blast
      have "ReadValueLoop
            \<lparr>tokens = Inr (tokenize new_ParseSettings buf (doubled 34 t @ [34])), current = c\<rparr> nv True True
          = Inr (joined (nv @ (?fp @ [lit] @ pieces)), ?fin)"
        using step p(1) by simp
      moreover have "concat (?fp @ [lit] @ pieces) = buf @ t"
        using p(2) split by simp
      moreover have "?fp @ [lit] @ pieces \<noteq> []" by simp
      ultimately show ?thesis by blast
    qed
    have ordinary: ?thesis
      if tk: "tokenize new_ParseSettings buf (doubled 34 t @ [34])
          = tokenize new_ParseSettings (buf @ [x]) (doubled 34 t' @ [34])"
    proof -
      from less [of t' "buf @ [x]" c nv] Cons obtain pieces where
        p: "ReadValueLoop
              \<lparr>tokens = Inr (tokenize new_ParseSettings (buf @ [x]) (doubled 34 t' @ [34])), current = c\<rparr>
              nv True True = Inr (joined (nv @ pieces), ?fin)"
          "concat pieces = (buf @ [x]) @ t'" "pieces \<noteq> []"
        by auto
      with tk Cons show ?thesis by auto
    qed
    consider (quote) "x = 34" | (comma) "x = 44"
      | (crlf) t'' where "x = 13" "t' = 10 # t''"
      | (cr) "x = 13" "t' = [] \<or> hd t' \<noteq> 10"
      | (other) "x \<noteq> 34" "x \<noteq> 44" "x \<noteq> 13"
      by (cases t') auto
    then show ?thesis
    proof cases
      case quote
      show ?thesis
      proof (rule special [of t' "Some \<lparr>Type = Quote, Value = Some [34]\<rparr>" "[34]"])
        show "ReadValueLoop
            \<lparr>tokens = Inr (tokenize new_ParseSettings buf (doubled 34 t @ [34])), current = c\<rparr> nv True True
          = ReadValueLoop \<lparr>tokens = Inr (tokenize new_ParseSettings [] (doubled 34 t' @ [34])),
                current = Some \<lparr>Type = Quote, Value = Some [34]\<rparr>\<rparr> (nv @ ?fp @ [[34]]) True True"
          unfolding Cons quote doubled_simps
          by (simp add: tokenize_default_quote ReadValueLoop_flush_quoted [where c' = c]
                ReadValueLoop_Cons ValueOrEmpty_def flush_def del: tokenize.simps)
      qed (simp_all add: Cons quote)
    next
      case comma
      show ?thesis
      proof (rule special [of t' "Some \<lparr>Type = Delimiter, Value = Some [44]\<rparr>" "[44]"])
        show "ReadValueLoop
            \<lparr>tokens = Inr (tokenize new_ParseSettings buf (doubled 34 t @ [34])), current = c\<rparr> nv True True
          = ReadValueLoop \<lparr>tokens = Inr (tokenize new_ParseSettings [] (doubled 34 t' @ [34])),
                current = Some \<lparr>Type = Delimiter, Value = Some [44]\<rparr>\<rparr> (nv @ ?fp @ [[44]])
                True True"
          unfolding Cons comma doubled_simps
          by (simp add: tokenize_default_comma ReadValueLoop_flush_quoted [where c' = c]
                ReadValueLoop_Cons ValueOrEmpty_def del: tokenize.simps)
      qed (simp_all add: Cons comma)
    next
      case crlf
      show ?thesis
      proof (rule special [of t'' "Some \<lparr>Type = LineSeparator, Value = Some [13, 10]\<rparr>" "[13, 10]"])
        show "ReadValueLoop
            \<lparr>tokens = Inr (tokenize new_ParseSettings buf (doubled 34 t @ [34])), current = c\<rparr> nv True True
          = ReadValueLoop \<lparr>tokens = Inr (tokenize new_ParseSettings [] (doubled 34 t'' @ [34])),
                current = Some \<lparr>Type = LineSeparator, Value = Some [13, 10]\<rparr>\<rparr>
                (nv @ ?fp @ [[13, 10]]) True True"
          unfolding Cons crlf doubled_simps
          by (simp add: tokenize_default_crlf ReadValueLoop_flush_quoted [where c' = c]
                ReadValueLoop_Cons ValueOrEmpty_def del: tokenize.simps)
      qed (simp_all add: Cons crlf)
    next
      case cr
      from cr(2) have "doubled 34 t' @ [34] = [] \<or> hd (doubled 34 t' @ [34]) \<noteq> (10::char16)"
        by (rule doubled_ends_no_lf)
      then have "tokenize new_ParseSettings buf (13 # doubled 34 t' @ [34])
          = tokenize new_ParseSettings (buf @ [13]) (doubled 34 t' @ [34])"
        by (rule tokenize_default_cr)
      then show ?thesis
        using cr(1) Cons by (intro ordinary) (simp del: tokenize.simps)
    next
      case other
      then show ?thesis
        using Cons by (intro ordinary) (simp add: tokenize_default_other del: tokenize.simps)
    qed
  qed
qed

lemma replace_RegExp_g_ordinary:
  "q \<notin> {92, 42, 43, 63, 40, 41, 91, 46, 94, 36, 124} \<Longrightarrow>
     replace_RegExp_g [q] v = Inr (doubled q v)"
  by (simp add: replace_RegExp_g_def doubled_def)

lemma Minimal_wraps_ordinary_quote:
  assumes "QuotingMode s = Minimal" and "QuotingCharacter s = [q]"
    and "q \<notin> {92, 42, 43, 63, 40, 41, 91, 46, 94, 36, 124}" and "q \<in> set v"
  shows "WrapValueForCsv (Some v) s = Inr (Some ([q] @ doubled q v @ [q]))"
proof -
  from assms(4) have "v \<noteq> []" by auto
  with assms show ?thesis
    by (simp add: WrapValueForCsv_def WrapValueForCsvUsingMinimalMode_def includes_js_single
        replace_RegExp_g_ordinary del: insert_iff)
qed

lemma wrap_default:
  assumes "t \<noteq> []"
  shows "WrapValueForCsv (Some t) new_ParseSettings =
     Inr (Some (if 34 \<in> set t \<or> 44 \<in> set t \<or> includes_js t [13, 10]
                then 34 # doubled 34 t @ [34] else t))"
proof (cases "34 \<in> set t")
  case True
  with assms show ?thesis
    by (simp add: WrapValueForCsv_def WrapValueForCsvUsingMinimalMode_def includes_js_single
        replace_RegExp_g_ordinary new_ParseSettings_def)
next
  case False
  with assms show ?thesis
    by (simp add: WrapValueForCsv_def WrapValueForCsvUsingMinimalMode_def includes_js_single
        doubled_without new_ParseSettings_def)
qed

lemma ParseSingleRow_one_field:
  assumes "ReadValueLoop \<lparr>tokens = Inr (tokenize new_ParseSettings [] w), current = None\<rparr>
      [] False False
    = Inr (Some t, \<lparr>tokens = Inr [], current = Some \<lparr>Type = EndOfFile, Value = None\<rparr>\<rparr>)"
  shows "ParseSingleRow w (Some new_ParseSettings) = Inr [Some t]
    \<and> ParseSingleRow w None = Inr [Some t]"
proof -
  have v: "validateSettings new_ParseSettings = Inr ()"
    by (simp add: validateSettings_def new_ParseSettings_def)
  have p: "new_Parser w so = \<lparr>tokens = Inr (tokenize new_ParseSettings [] w), current = None\<rparr>"
    if "so = None \<or> so = Some new_ParseSettings" for so
    using that v
    by (auto simp: new_Parser_def initialize_def scanReader_def scanLoop_tokenize
        new_TextReader_def)
  have "ParseSingleRow w so = Inr [Some t]" if "so = None \<or> so = Some new_ParseSettings" for so
    unfolding ParseSingleRow_def p [OF that]
    using assms
    by (simp add: ReadNextRow_def HasMoreRows_def CurrentTokenType_def ReadNextCsvValues.simps
        ReadNextCsvValue_def)
  then show ?thesis by simp
qed

section \<open>The claims\<close>

text \<open>
  C1, as the code has it. Under the default settings in Minimal mode, for every
  non-empty text \<open>t\<close>, \<open>WrapValueForCsv\<close> returns a text that \<open>ParseSingleRow\<close> reads back
  as exactly the one-field row of \<open>t\<close>, whether \<open>t\<close> holds quote characters, field
  delimiters or row delimiters or not. (The empty text is wrapped as the empty text,
  which parses to the row of no fields.)
\<close>

theorem C1_wrap_then_parse_single_row:
  assumes "t \<noteq> []"
  shows "\<exists>w. WrapValueForCsv (Some t) new_ParseSettings = Inr (Some w)
     \<and> ParseSingleRow w (Some new_ParseSettings) = Inr [Some t]
     \<and> ParseSingleRow w None = Inr [Some t]"
proof (cases "34 \<in> set t \<or> 44 \<in> set t \<or> includes_js t [13, 10]")
  case True
  let ?w = "34 # doubled 34 t @ [34]"
  obtain pieces where
    p: "ReadValueLoop \<lparr>tokens = Inr (tokenize new_ParseSettings [] (doubled 34 t @ [34])),
          current = Some \<lparr>Type = Quote, Value = Some [34]\<rparr>\<rparr> [] True True
        = Inr (joined ([] @ pieces),
               \<lparr>tokens = Inr [], current = Some \<lparr>Type = EndOfFile, Value = None\<rparr>\<rparr>)"
      "concat pieces = [] @ t" "[] @ t \<noteq> [] \<longrightarrow> pieces \<noteq> []"
    using quoted_body [of "[]" t "Some \<lparr>Type = Quote, Value = Some [34]\<rparr>" "[]"] by blast
  with assms have "joined ([] @ pieces) = Some t" by (simp add: joined_def)
  with p(1) have "ReadValueLoop \<lparr>tokens = Inr (tokenize new_ParseSettings [] ?w), current = None\<rparr>
      [] False False
    = Inr (Some t, \<lparr>tokens = Inr [], current = Some \<lparr>Type = EndOfFile, Value = None\<rparr>\<rparr>)"
    by (simp add: tokenize_default_quote flush_def ReadValueLoop_Cons del: tokenize.simps)
  from ParseSingleRow_one_field [OF this] wrap_default [OF assms] True
  show ?thesis by simp
next
  case False
  then have "tokenize new_ParseSettings [] t
      = flush ([] @ t) @ [\<lparr>Type = EndOfFile, Value = None\<rparr>]"
    by (intro tokenize_plain) simp_all
  with assms have "ReadValueLoop \<lparr>tokens = Inr (tokenize new_ParseSettings [] t), current = None\<rparr>
      [] False False
    = Inr (Some t, \<lparr>tokens = Inr [], current = Some \<lparr>Type = EndOfFile, Value = None\<rparr>\<rparr>)"
    by (simp add: flush_def ReadValueLoop_Cons joined_def ValueOrEmpty_def del: tokenize.simps)
  from ParseSingleRow_one_field [OF this] wrap_default [OF assms] False
  show ?thesis by simp
qed

text \<open>
  The round trip on the text \<open>a,"b\<close> CR LF, which holds the delimiter, the quote
  character and the row delimiter.
\<close>

theorem C1_wrap_then_parse_single_row_witness:
  "WrapValueForCsv (Some (js ''a,\"b'' @ [13, 10])) new_ParseSettings
     = Inr (Some (js ''\"a,\"\"b'' @ [13, 10] @ js ''\"''))
   \<and> ParseSingleRow (js ''\"a,\"\"b'' @ [13, 10] @ js ''\"'') None
     = Inr [Some (js ''a,\"b'' @ [13, 10])]"
  using C1_wrap_then_parse_single_row [of "js ''a,\"b'' @ [13, 10]"]
  by (simp add: writer_eval new_ParseSettings_def js_def)

text \<open>
  C1 fails at the empty text: it is returned unwrapped, and the empty row text parses
  to the row of no fields, not to the row of one empty field.
\<close>

theorem C1_wrap_then_parse_counterexample:
  "WrapValueForCsv (Some []) new_ParseSettings = Inr (Some [])
   \<and> ParseSingleRow [] (Some new_ParseSettings) = Inr []
   \<and> ParseSingleRow [] (Some new_ParseSettings) \<noteq> Inr [Some []]"
  by (simp add: lexer_eval parser_eval writer_eval)

text \<open>
  C2, as the code has it. A Quote token read in the Bare state always enters quote-mode;
  the quote character is appended to the field value only when a quote has been seen
  earlier in the same field (\<open>isQuoted\<close>), whatever has been accumulated. So the row
  \<open>a"b"\<close> yields the one field \<open>ab\<close>, and the row \<open>"a""b"\<close> yields \<open>a"b\<close>.
\<close>

theorem C2_quote_in_bare_state:
  "(\<forall>t ts c nv isQuoted. Type t = Quote \<longrightarrow>
      ReadValueLoop \<lparr>tokens = Inr (t # ts), current = c\<rparr> nv isQuoted False
        = ReadValueLoop \<lparr>tokens = Inr ts, current = Some t\<rparr>
            (if isQuoted then nv @ [ValueOrEmpty t] else nv) True True)
   \<and> ParseSingleRow (js ''a\"b\"'') None = Inr [Some (js ''ab'')]
   \<and> ParseSingleRow (js ''\"a\"\"b\"'') None = Inr [Some (js ''a\"b'')]"
  by (simp add: lexer_eval parser_eval)

text \<open>
  The step at the first quote of \<open>a"\<close>: \<open>a\<close> is accumulated, no quote seen yet, and the
  value stays \<open>a\<close>.
\<close>

theorem C2_quote_in_bare_state_witness:
  "ReadValueLoop
     \<lparr>tokens = Inr [\<lparr>Type = Quote, Value = Some (js ''\"'')\<rparr>, \<lparr>Type = EndOfFile, Value = None\<rparr>],
      current = Some \<lparr>Type = Text, Value = Some (js ''a'')\<rparr>\<rparr> [js ''a''] False False
   = ReadValueLoop
     \<lparr>tokens = Inr [\<lparr>Type = EndOfFile, Value = None\<rparr>],
      current = Some \<lparr>Type = Quote, Value = Some (js ''\"'')\<rparr>\<rparr> [js ''a''] True True"
  using C2_quote_in_bare_state [THEN conjunct1, rule_format,
      of "\<lparr>Type = Quote, Value = Some (js ''\"'')\<rparr>" "[\<lparr>Type = EndOfFile, Value = None\<rparr>]"
         "Some \<lparr>Type = Text, Value = Some (js ''a'')\<rparr>" "[js ''a'']" False]
  by simp

text \<open>
  C2 fails on its own example: \<open>a"b"\<close> does not parse to the field \<open>a"b\<close>.
\<close>

theorem C2_quote_in_bare_state_counterexample:
  "ParseSingleRow (js ''a\"b\"'') None \<noteq> Inr [Some (js ''a\"b'')]"
  by (simp add: lexer_eval parser_eval)

text \<open>
  C3. The Lexer does yield EndOfFile as the last token for every input under the default
  settings, yet the error about the token sequence ending without EndOfFile is raised:
  in quote-mode the EndOfFile token is consumed as content and the next pull finds the
  generator exhausted. The input of one quote character raises it, and so does
  \<open>"abc\<close>.
\<close>

theorem C3_unterminated_quote_raises:
  "(\<forall>input. \<exists>ts. scan new_ParseSettings input = Inr (ts @ [\<lparr>Type = EndOfFile, Value = None\<rparr>]))
   \<and> scan new_ParseSettings (js ''\"'')
       = Inr [\<lparr>Type = Quote, Value = Some (js ''\"'')\<rparr>, \<lparr>Type = EndOfFile, Value = None\<rparr>]
   \<and> Parse (js ''\"'') None = Inl UnexpectedEndOfLexerOutput
   \<and> Parse (js ''\"abc'') (Some new_ParseSettings) = Inl UnexpectedEndOfLexerOutput"
proof -
  have "validateSettings new_ParseSettings = Inr ()"
    by (simp add: validateSettings_def new_ParseSettings_def)
  then have "\<forall>input. \<exists>ts. scan new_ParseSettings input
      = Inr (ts @ [\<lparr>Type = EndOfFile, Value = None\<rparr>])"
    using scan_ends_with_EndOfFile by blast
  then show ?thesis by (simp add: lexer_eval parser_eval)
qed

text \<open>
  C4, as the code has it. In QuoteAll mode \<open>WriteLine\<close> of the values \<open>a,b\<close> and the empty
  string hands the sink exactly \<open>"a,b",""\<close> CR LF, and parsing that text yields the single
  row whose first field is \<open>a,b\<close> and whose second field is absent (\<open>null\<close>): a quoted
  empty field accumulates nothing and is returned as \<open>null\<close>.
\<close>

theorem C4_quote_all_write_then_parse:
  "WriteLine (new_Writer \<lparr>written = []\<rparr> (Some (new_ParseSettings\<lparr>QuotingMode := QuoteAll\<rparr>)))
     [js ''a,b'', []]
     = Inr \<lparr>Settings = new_ParseSettings\<lparr>QuotingMode := QuoteAll\<rparr>,
            Writer = \<lparr>written = js ''\"a,b\",\"\"'' @ [13, 10]\<rparr>, LineAlreadyStarted = False\<rparr>
   \<and> Parse (js ''\"a,b\",\"\"'' @ [13, 10]) (Some (new_ParseSettings\<lparr>QuotingMode := QuoteAll\<rparr>))
       = Inr [Some [Some (js ''a,b''), None]]"
  by (simp add: lexer_eval parser_eval writer_eval)

text \<open>
  C4 fails in its second half: the written text is as claimed, the row read back does
  not have the empty string as its second field.
\<close>

theorem C4_quote_all_counterexample:
  "WriteLine (new_Writer \<lparr>written = []\<rparr> (Some (new_ParseSettings\<lparr>QuotingMode := QuoteAll\<rparr>)))
     [js ''a,b'', []]
     = Inr \<lparr>Settings = new_ParseSettings\<lparr>QuotingMode := QuoteAll\<rparr>,
            Writer = \<lparr>written = js ''\"a,b\",\"\"'' @ [13, 10]\<rparr>, LineAlreadyStarted = False\<rparr>
   \<and> Parse (js ''\"a,b\",\"\"'' @ [13, 10]) (Some (new_ParseSettings\<lparr>QuotingMode := QuoteAll\<rparr>))
       \<noteq> Inr [Some [Some (js ''a,b''), Some []]]"
  by (simp add: lexer_eval parser_eval writer_eval)

text \<open>
  C5. With default settings the input \<open>a,b\<close> followed by CR LF parses to exactly one row
  of the fields \<open>a\<close> and \<open>b\<close>, not two. After the first row the parser still has more
  rows; the next row read consists of exactly one absent field and is seen when the
  input is exhausted, so \<open>ReadNextRow\<close> returns \<open>null\<close> for it and \<open>ReadToEnd\<close> does not
  include it.
\<close>

theorem C5_trailing_row_delimiter:
  "Parse (js ''a,b'' @ [13, 10]) None = Inr [Some [Some (js ''a''), Some (js ''b'')]]
   \<and> (\<exists>p1 p2. ReadNextRow (new_Parser (js ''a,b'' @ [13, 10]) None)
           = Inr (Some [Some (js ''a''), Some (js ''b'')], p1)
         \<and> HasMoreRows p1
         \<and> ReadNextCsvValues p1 = Inr ([None], p2)
         \<and> \<not> HasMoreRows p2
         \<and> ReadNextRow p1 = Inr (None, p2)
         \<and> ReadToEndLoop p1 [Some [Some (js ''a''), Some (js ''b'')]]
             = Inr ([Some [Some (js ''a''), Some (js ''b'')]], p2))"
  by (simp add: lexer_eval parser_eval)

text \<open>
  C6. Parsing the empty string with default settings yields zero rows: \<open>Parse\<close> of the
  empty input, and \<open>ReadToEnd\<close> on a parser over it, return the empty sequence of rows.
\<close>

theorem C6_empty_input_zero_rows:
  "Parse [] None = Inr [] \<and> Parse [] (Some new_ParseSettings) = Inr []
   \<and> (\<exists>p. ReadToEnd (new_Parser [] None) = Inr ([], p))"
  by (simp add: lexer_eval parser_eval)

text \<open>
  C7. With the default row delimiter CR LF, a CR that is not followed by LF is not
  special: the loop of the Lexer appends it to the buffer and goes on with the next
  code unit, raising nothing. The input \<open>a\<close> CR \<open>b,c\<close> scans to the Text token \<open>a\<close> CR
  \<open>b\<close>, a Delimiter, the Text token \<open>c\<close> and EndOfFile, and parses to exactly one row
  whose fields are \<open>a\<close> CR \<open>b\<close> and \<open>c\<close>.
\<close>

theorem C7_lone_first_character_is_text:
  "(\<forall>r buffer. position r < length (content r) \<longrightarrow> content r ! position r = 13 \<longrightarrow>
       (Suc (position r) < length (content r) \<longrightarrow> content r ! Suc (position r) \<noteq> 10) \<longrightarrow>
       scanLoop new_ParseSettings r buffer
         = scanLoop new_ParseSettings (r\<lparr>position := Suc (position r)\<rparr>) (buffer @ [13]))
   \<and> scan new_ParseSettings (js ''a'' @ [13] @ js ''b,c'')
       = Inr [\<lparr>Type = Text, Value = Some (js ''a'' @ [13] @ js ''b'')\<rparr>,
              \<lparr>Type = Delimiter, Value = Some (js '','')\<rparr>,
              \<lparr>Type = Text, Value = Some (js ''c'')\<rparr>,
              \<lparr>Type = EndOfFile, Value = None\<rparr>]
   \<and> Parse (js ''a'' @ [13] @ js ''b,c'') None
       = Inr [Some [Some (js ''a'' @ [13] @ js ''b''), Some (js ''c'')]]"
proof (intro conjI allI impI)
  fix r :: TextReader and buffer :: jsstring
  assume inside: "position r < length (content r)"
    and cr: "content r ! position r = 13"
    and nolf: "Suc (position r) < length (content r) \<longrightarrow> content r ! Suc (position r) \<noteq> 10"
  have "drop (position r) (content r) = 13 # drop (Suc (position r)) (content r)"
    using inside cr by (simp add: drop_as_Cons)
  moreover have "tokenize new_ParseSettings buffer (13 # drop (Suc (position r)) (content r))
      = tokenize new_ParseSettings (buffer @ [13]) (drop (Suc (position r)) (content r))"
  proof (cases "Suc (position r) < length (content r)")
    case True
    with nolf show ?thesis
      by (simp add: new_ParseSettings_def Cons_nth_drop_Suc [symmetric])
  next
    case False
    then show ?thesis by (simp add: new_ParseSettings_def)
  qed
  ultimately show "scanLoop new_ParseSettings r buffer
      = scanLoop new_ParseSettings (r\<lparr>position := Suc (position r)\<rparr>) (buffer @ [13])"
    by (simp add: scanLoop_tokenize)
qed (simp_all add: lexer_eval parser_eval)

text \<open>The loop at the CR of \<open>a\<close> CR \<open>b,c\<close>, where the next code unit is \<open>b\<close>.\<close>

theorem C7_lone_first_character_is_text_witness:
  "scanLoop new_ParseSettings \<lparr>content = js ''a'' @ [13] @ js ''b,c'', position = 1\<rparr> (js ''a'')
     = scanLoop new_ParseSettings \<lparr>content = js ''a'' @ [13] @ js ''b,c'', position = 2\<rparr>
         (js ''a'' @ [13])"
proof -
  let ?r = "\<lparr>content = js ''a'' @ [13] @ js ''b,c'', position = 1\<rparr>"
  have "position ?r < length (content ?r)" and "content ?r ! position ?r = 13"
    and "Suc (position ?r) < length (content ?r) \<longrightarrow> content ?r ! Suc (position ?r) \<noteq> 10"
    by (simp_all add: js_def)
  with C7_lone_first_character_is_text [THEN conjunct1, rule_format, of ?r "js ''a''"]
  show ?thesis by (simp add: js_def numeral_2_eq_2)
qed

text \<open>
  C8 at the quoting character \<open>.\<close> and the value \<open>a.b\<close>: as a regular expression the
  dot matches every code unit, each is replaced by two dots, and the result is eight dots,
  not \<open>.a..b.\<close>. (For a quoting character that is no pattern syntax the claim holds:
  \<open>Minimal_wraps_ordinary_quote\<close>.)
\<close>

theorem C8_regexp_metacharacter_quote:
  "WrapValueForCsv (Some (js ''a.b'')) (new_ParseSettings\<lparr>QuotingCharacter := js ''.''\<rparr>)
     = Inr (Some (js ''........''))
   \<and> WrapValueForCsv (Some (js ''a.b'')) (new_ParseSettings\<lparr>QuotingCharacter := js ''.''\<rparr>)
     \<noteq> Inr (Some (js ''.a..b.''))"
  by (simp add: writer_eval new_ParseSettings_def js_def)

text \<open>
  C9. On a freshly constructed Parser \<open>HasMoreRows\<close> is true for every input text (and
  whatever the settings), the empty string included, since the current token is not yet
  set; and on the empty input the next \<open>ReadNextRow\<close> returns \<open>null\<close>, so a true
  \<open>HasMoreRows\<close> does not promise a row.
\<close>

theorem C9_fresh_parser_has_more_rows:
  "HasMoreRows (new_Parser csv settings)
   \<and> (\<exists>p. ReadNextRow (new_Parser [] None) = Inr (None, p))"
  by (simp add: lexer_eval parser_eval)

text \<open>
  C10. Whenever scanning succeeds, every Text token has a value, the value is not empty,
  and no code unit of it is the field delimiter or the quoting character. The first code
  unit of the row delimiter can be in it: \<open>a\<close> CR \<open>b\<close> scans to one Text token.
\<close>

theorem C10_text_tokens:
  "(\<forall>s input toks. scan s input = Inr toks \<longrightarrow>
      (\<forall>t\<in>set toks. Type t = Text \<longrightarrow>
         (\<exists>v. Value t = Some v \<and> v \<noteq> []
            \<and> (\<forall>c\<in>set v. [c] \<noteq> FieldDelimiter s \<and> [c] \<noteq> QuotingCharacter s))))
   \<and> scan new_ParseSettings (js ''a'' @ [13] @ js ''b'')
       = Inr [\<lparr>Type = Text, Value = Some (js ''a'' @ [13] @ js ''b'')\<rparr>,
              \<lparr>Type = EndOfFile, Value = None\<rparr>]"
proof (intro conjI allI impI ballI)
  fix s input toks t
  assume "scan s input = Inr toks" and t: "t \<in> set toks" "Type t = Text"
  then have "toks = tokenize s [] input"
    by (auto simp: scan_def scanReader_def scanLoop_tokenize new_TextReader_def
        split: sum.splits)
  with t show "\<exists>v. Value t = Some v \<and> v \<noteq> []
      \<and> (\<forall>c\<in>set v. [c] \<noteq> FieldDelimiter s \<and> [c] \<noteq> QuotingCharacter s)"
    using tokenize_Text_values [of "[]" s t input] by simp
qed (simp add: lexer_eval)

text \<open>
  The Text token \<open>ab\<close> of the input \<open>ab,c\<close>.
\<close>

theorem C10_text_tokens_witness:
  "scan new_ParseSettings (js ''ab,c'')
     = Inr [\<lparr>Type = Text, Value = Some (js ''ab'')\<rparr>, \<lparr>Type = Delimiter, Value = Some (js '','')\<rparr>,
            \<lparr>Type = Text, Value = Some (js ''c'')\<rparr>, \<lparr>Type = EndOfFile, Value = None\<rparr>]
   \<and> (\<exists>v. Value \<lparr>Type = Text, Value = Some (js ''ab'')\<rparr> = Some v \<and> v \<noteq> []
          \<and> (\<forall>c\<in>set v. [c] \<noteq> FieldDelimiter new_ParseSettings
                \<and> [c] \<noteq> QuotingCharacter new_ParseSettings))"
proof -
  have sc: "scan new_ParseSettings (js ''ab,c'')
     = Inr [\<lparr>Type = Text, Value = Some (js ''ab'')\<rparr>, \<lparr>Type = Delimiter, Value = Some (js '','')\<rparr>,
            \<lparr>Type = Text, Value = Some (js ''c'')\<rparr>, \<lparr>Type = EndOfFile, Value = None\<rparr>]"
    by (simp add: lexer_eval)
  from C10_text_tokens [THEN conjunct1, rule_format, OF sc,
      of "\<lparr>Type = Text, Value = Some (js ''ab'')\<rparr>"]
  have "\<exists>v. Value \<lparr>Type = Text, Value = Some (js ''ab'')\<rparr> = Some v \<and> v \<noteq> []
          \<and> (\<forall>c\<in>set v. [c] \<noteq> FieldDelimiter new_ParseSettings
                \<and> [c] \<noteq> QuotingCharacter new_ParseSettings)"
    by simp
  with sc show ?thesis by simp
qed

end
